theory Spec2Isabelle
  imports Main
begin

section \<open>Python strings\<close>

text \<open>
  A Python \<open>str\<close> is a sequence of code points. Here a character is a code point below
  256 (Latin-1), so \<open>length\<close> counts what \<open>len\<close> counts and the keyword with a
  circumflex is one character. The classifications below are the ones CPython applies to
  these code points: \<open>str.isspace\<close> (also \<open>\s\<close> of \<open>re\<close>, \<open>str.strip\<close> and \<open>str.split\<close>),
  decimal digits (\<open>\d\<close>), lower and upper case letters.
\<close>

definition is_space :: "char \<Rightarrow> bool" where
  "is_space c = (c \<in> set [CHR 0x09, CHR 0x0A, CHR 0x0B, CHR 0x0C, CHR 0x0D, CHR 0x1C,
      CHR 0x1D, CHR 0x1E, CHR 0x1F, CHR 0x20, CHR 0x85, CHR 0xA0])"

definition is_digit :: "char \<Rightarrow> bool" where
  "is_digit c = (c \<in> set ''0123456789'')"

definition lower_letters :: string where
  "lower_letters = ''abcdefghijklmnopqrstuvwxyz'' @
     [CHR 0xE0, CHR 0xE1, CHR 0xE2, CHR 0xE3, CHR 0xE4, CHR 0xE5, CHR 0xE6, CHR 0xE7,
      CHR 0xE8, CHR 0xE9, CHR 0xEA, CHR 0xEB, CHR 0xEC, CHR 0xED, CHR 0xEE, CHR 0xEF,
      CHR 0xF0, CHR 0xF1, CHR 0xF2, CHR 0xF3, CHR 0xF4, CHR 0xF5, CHR 0xF6,
      CHR 0xF8, CHR 0xF9, CHR 0xFA, CHR 0xFB, CHR 0xFC, CHR 0xFD, CHR 0xFE]"

definition upper_letters :: string where
  "upper_letters = ''ABCDEFGHIJKLMNOPQRSTUVWXYZ'' @
     [CHR 0xC0, CHR 0xC1, CHR 0xC2, CHR 0xC3, CHR 0xC4, CHR 0xC5, CHR 0xC6, CHR 0xC7,
      CHR 0xC8, CHR 0xC9, CHR 0xCA, CHR 0xCB, CHR 0xCC, CHR 0xCD, CHR 0xCE, CHR 0xCF,
      CHR 0xD0, CHR 0xD1, CHR 0xD2, CHR 0xD3, CHR 0xD4, CHR 0xD5, CHR 0xD6,
      CHR 0xD8, CHR 0xD9, CHR 0xDA, CHR 0xDB, CHR 0xDC, CHR 0xDD, CHR 0xDE]"

text \<open>
  \<open>str.upper\<close>, one character at a time: a letter of \<open>lower_letters\<close> becomes the letter
  at the same place of \<open>upper_letters\<close>, the sharp s (U+00DF) becomes two letters. The micro
  sign (U+00B5) and the y with diaeresis (U+00FF) have their capitals beyond U+00FF; they
  are left as they are, which no keyword test below can tell apart.
\<close>

definition upper_char :: "char \<Rightarrow> string" where
  "upper_char c =
     (if c = CHR 0xDF then ''SS''
      else case map_of (zip lower_letters upper_letters) c of Some u \<Rightarrow> [u] | None \<Rightarrow> [c])"

definition upper :: "string \<Rightarrow> string" where
  "upper s = concat (map upper_char s)"

definition is_lower_char :: "char \<Rightarrow> bool" where
  "is_lower_char c = (c \<in> set lower_letters \<or> c \<in> set [CHR 0xAA, CHR 0xB5, CHR 0xBA, CHR 0xDF, CHR 0xFF])"

definition is_upper_char :: "char \<Rightarrow> bool" where
  "is_upper_char c = (c \<in> set upper_letters)"

text \<open>\<open>str.isupper\<close>: no lower case letter and at least one upper case letter.\<close>

definition isupper :: "string \<Rightarrow> bool" where
  "isupper s = (list_ex is_upper_char s \<and> \<not> list_ex is_lower_char s)"

text \<open>\<open>str.strip()\<close>: white space removed at both ends.\<close>

definition strip :: "string \<Rightarrow> string" where
  "strip s = rev (dropWhile is_space (rev (dropWhile is_space s)))"

text \<open>\<open>str.split(sep)\<close> for a separator of one character: never the empty list.\<close>

fun split_on :: "char \<Rightarrow> string \<Rightarrow> string list" where
  "split_on sep [] = [[]]"
| "split_on sep (c # cs) =
     (if c = sep then [] # split_on sep cs
      else (case split_on sep cs of [] \<Rightarrow> [[c]] | l # ls \<Rightarrow> (c # l) # ls))"

text \<open>\<open>str.split()\<close>: the maximal runs of characters that are not white space.\<close>

function split_ws :: "string \<Rightarrow> string list" where
  "split_ws s =
     (case dropWhile is_space s of
        [] \<Rightarrow> []
      | c # cs \<Rightarrow> (c # takeWhile (\<lambda>x. \<not> is_space x) cs) #
          split_ws (dropWhile (\<lambda>x. \<not> is_space x) cs))"
  by pat_completeness auto
termination
proof (relation "measure length", simp)
  fix s :: string and c cs
  assume eq: "dropWhile is_space s = c # cs"
  have "length (dropWhile (\<lambda>x. \<not> is_space x) cs) \<le> length cs"
    by (rule length_dropWhile_le)
  moreover have "length (dropWhile is_space s) \<le> length s"
    by (rule length_dropWhile_le)
  ultimately show "(dropWhile (\<lambda>x. \<not> is_space x) cs, s) \<in> measure length"
    using eq by simp
qed

declare split_ws.simps [simp del]

text \<open>\<open>sep.join(xs)\<close>.\<close>

fun join :: "string \<Rightarrow> string list \<Rightarrow> string" where
  "join sep [] = []"
| "join sep [x] = x"
| "join sep (x # y # ys) = x @ sep @ join sep (y # ys)"

text \<open>\<open>kw in s\<close>: \<open>kw\<close> occurs in \<open>s\<close> as a contiguous run.\<close>

primrec contains :: "string \<Rightarrow> string \<Rightarrow> bool" where
  "contains [] kw = (kw = [])"
| "contains (c # cs) kw = (take (length kw) (c # cs) = kw \<or> contains cs kw)"

text \<open>\<open>str(n)\<close> for a count: its decimal digits.\<close>

definition digit_char :: "nat \<Rightarrow> char" where
  "digit_char d = ''0123456789'' ! d"

function str :: "nat \<Rightarrow> string" where
  "str n = (if n < 10 then [digit_char n] else str (n div 10) @ [digit_char (n mod 10)])"
  by pat_completeness auto
termination
  by (relation "measure id") auto

declare str.simps [simp del]

section \<open>The regular expressions of the detector\<close>

text \<open>
  A greedy repetition tries the longest run first and gives characters back one at a
  time: \<open>try_counts f lo n\<close> is the first success of \<open>f\<close> among \<open>n\<close>, \<open>n - 1\<close>, ..., \<open>lo\<close>.
\<close>

fun try_counts :: "(nat \<Rightarrow> 'a option) \<Rightarrow> nat \<Rightarrow> nat \<Rightarrow> 'a option" where
  "try_counts f lo 0 = (if lo = 0 then f 0 else None)"
| "try_counts f lo (Suc n) =
     (if Suc n < lo then None
      else case f (Suc n) of Some r \<Rightarrow> Some r | None \<Rightarrow> try_counts f lo n)"

text \<open>\<open>re.match(r'^\d+\s', s)\<close>: one digit or more, then a white space character.\<close>

definition match_leading_number :: "string \<Rightarrow> bool" where
  "match_leading_number s =
     (case s of
        [] \<Rightarrow> False
      | d # _ \<Rightarrow> is_digit d \<and> (case dropWhile is_digit s of [] \<Rightarrow> False | c # _ \<Rightarrow> is_space c))"

text \<open>\<open>re.match(r'^\d+', s)\<close>.\<close>

definition match_digits :: "string \<Rightarrow> bool" where
  "match_digits s = (case s of [] \<Rightarrow> False | d # _ \<Rightarrow> is_digit d)"

text \<open>
  \<open>re.match(r'^(\d+)\s+(.+)', s)\<close>, giving the two groups. The digits are all taken
  (a digit given back is no white space); the white space run is taken whole and given
  back one character at a time until the dot, which matches anything but a newline, finds
  one character at least.
\<close>

definition match_number_text :: "string \<Rightarrow> (string \<times> string) option" where
  "match_number_text s =
     (let ds = takeWhile is_digit s;
          r = dropWhile is_digit s
      in if ds = [] then None
         else try_counts
           (\<lambda>k. let t = takeWhile (\<lambda>c. c \<noteq> CHR 0x0A) (drop k r)
                in if t = [] then None else Some (ds, t))
           1 (length (takeWhile is_space r)))"

section \<open>Configuration\<close>

definition CHORUS_KEYWORDS :: "string list" where
  "CHORUS_KEYWORDS = [''CHORUS'', ''CORO'', ''REFRAIN'', ''C'' @ [CHR 0xD4] @ ''RO'']"

definition MAX_VERSE_LINES :: nat where
  "MAX_VERSE_LINES = 6"

definition MAX_CHORUS_LINES :: nat where
  "MAX_CHORUS_LINES = 30"

section \<open>StructureDetector\<close>

text \<open>
  The dictionaries of the detector have fixed keys, so they are records. The extraction
  date of the metadata is the clock's and is left out.
\<close>

record verse =
  v_number :: string
  v_lines :: "string list"

record song =
  s_number :: string
  s_title :: string
  verses :: "verse list"
  chorus :: "string list"

record document =
  title :: string
  songs :: "song list"
  total_lines :: nat

text \<open>The variables of the main loop: the cursor \<open>i\<close>, \<open>structure\<close> and \<open>current_song\<close>.\<close>

record detect_state =
  cursor :: nat
  struct :: document
  current_song :: "song option"

definition is_song_title :: "string list \<Rightarrow> nat \<Rightarrow> bool" where
  "is_song_title lines i =
     (if i + 1 < length lines then
        (let next_line = strip (lines ! (i + 1)) in
         if match_leading_number next_line then
           (let numbered_sequence =
                  length (filter (\<lambda>j. match_leading_number (strip (lines ! j)))
                            [i ..< min (i + 5) (length lines)])
            in if numbered_sequence \<ge> 3 then False else True)
         else True)
      else True)"

text \<open>The previous song, when there is one, is appended to the songs of \<open>structure\<close>.\<close>

definition create_new_song ::
  "string \<times> string \<Rightarrow> document \<Rightarrow> song option \<Rightarrow> document \<times> song" where
  "create_new_song song_match structure0 current =
     ((case current of
         Some cs \<Rightarrow> structure0\<lparr>songs := songs structure0 @ [cs]\<rparr>
       | None \<Rightarrow> structure0),
      \<lparr>s_number = fst song_match, s_title = strip (snd song_match), verses = [], chorus = []\<rparr>)"

definition is_main_title :: "string \<Rightarrow> document \<Rightarrow> song option \<Rightarrow> bool" where
  "is_main_title line structure0 current =
     (isupper line \<and> length line > 10 \<and> title structure0 = [] \<and> current = None)"

definition is_chorus_line :: "string \<Rightarrow> bool" where
  "is_chorus_line line = list_ex (\<lambda>keyword. contains (upper line) keyword) CHORUS_KEYWORDS"

function chorus_loop :: "string list \<Rightarrow> nat \<Rightarrow> nat \<Rightarrow> string list \<Rightarrow> string list \<times> nat" where
  "chorus_loop lines i j chorus_lines =
     (if j < length lines \<and> j < i + MAX_CHORUS_LINES then
        (let chorus_line = strip (lines ! j) in
         if chorus_line = [] then chorus_loop lines i (j + 1) chorus_lines
         else if match_leading_number chorus_line \<and> length (split_ws chorus_line) > 3
           then (chorus_lines, j)
         else if is_chorus_line chorus_line then (chorus_lines, j)
         else chorus_loop lines i (j + 1) (chorus_lines @ [chorus_line]))
      else (chorus_lines, j))"
  by pat_completeness auto
termination
  by (relation "measure (\<lambda>(lines, i, j, chorus_lines). length lines - j)") auto

declare chorus_loop.simps [simp del]

definition extract_chorus :: "string list \<Rightarrow> nat \<Rightarrow> string list \<times> nat" where
  "extract_chorus lines i = chorus_loop lines i (i + 1) []"

function numbered_loop :: "string list \<Rightarrow> nat \<Rightarrow> string list \<Rightarrow> string list \<times> nat" where
  "numbered_loop lines j verse_lines =
     (if j < length lines \<and> length verse_lines < MAX_VERSE_LINES then
        (let next_line = strip (lines ! j) in
         if next_line = [] then numbered_loop lines (j + 1) verse_lines
         else if match_leading_number next_line then (verse_lines, j)
         else if is_chorus_line next_line then (verse_lines, j)
         else numbered_loop lines (j + 1) (verse_lines @ [next_line]))
      else (verse_lines, j))"
  by pat_completeness auto
termination
  by (relation "measure (\<lambda>(lines, j, verse_lines). length lines - j)") auto

declare numbered_loop.simps [simp del]

definition extract_numbered_verse ::
  "string list \<Rightarrow> nat \<Rightarrow> string \<times> string \<Rightarrow> verse option \<times> nat" where
  "extract_numbered_verse lines i verse_match =
     (let verse_num = fst verse_match; verse_text = snd verse_match in
      if length (split_ws verse_text) \<le> 15 then
        (case numbered_loop lines (i + 1) [verse_text] of (verse_lines, j) \<Rightarrow>
           if length (strip (join '' '' verse_lines)) > 10
           then (Some \<lparr>v_number = verse_num, v_lines = verse_lines\<rparr>, j)
           else (None, i + 1))
      else (None, i + 1))"

definition is_potential_verse :: "string \<Rightarrow> bool" where
  "is_potential_verse line =
     (length line > 5 \<and> \<not> match_digits line \<and> length (split_ws line) > 1 \<and> \<not> isupper line)"

function unnumbered_loop :: "string list \<Rightarrow> nat \<Rightarrow> string list \<Rightarrow> string list \<times> nat" where
  "unnumbered_loop lines j verse_lines =
     (if j < length lines \<and> length verse_lines < 4 then
        (let next_line = strip (lines ! j) in
         if next_line = [] then unnumbered_loop lines (j + 1) verse_lines
         else if match_leading_number next_line \<and> length (split_ws next_line) > 3
           then (verse_lines, j)
         else if is_chorus_line next_line then (verse_lines, j)
         else unnumbered_loop lines (j + 1) (verse_lines @ [next_line]))
      else (verse_lines, j))"
  by pat_completeness auto
termination
  by (relation "measure (\<lambda>(lines, j, verse_lines). length lines - j)") auto

declare unnumbered_loop.simps [simp del]

text \<open>
  The only call is in the main loop, at a cursor below \<open>len(lines)\<close>, so \<open>lines[i]\<close> is
  in range.
\<close>

definition extract_unnumbered_verse ::
  "string list \<Rightarrow> nat \<Rightarrow> song \<Rightarrow> verse option \<times> nat" where
  "extract_unnumbered_verse lines i current =
     (case unnumbered_loop lines (i + 1) [strip (lines ! i)] of (verse_lines, j) \<Rightarrow>
        if length (verses current) = 0 \<or> length (join '' '' verse_lines) > 15
        then (Some \<lparr>v_number = str (length (verses current) + 1), v_lines = verse_lines\<rparr>, j)
        else (None, j))"

definition filter_valid_songs :: "song list \<Rightarrow> song list" where
  "filter_valid_songs ss = filter (\<lambda>song. verses song \<noteq> [] \<or> chorus song \<noteq> []) ss"

text \<open>
  One pass of the body of \<open>while i < len(lines)\<close> in \<open>detect_structure\<close>, for a cursor
  in range. The branches are tried in the order of the source; a branch whose inner test
  fails falls through to the next one.
\<close>

definition append_verse :: "song \<Rightarrow> verse option \<Rightarrow> song" where
  "append_verse current verse_data =
     (case verse_data of
        Some v \<Rightarrow> current\<lparr>verses := verses current @ [v]\<rparr>
      | None \<Rightarrow> current)"

definition step_verses :: "string list \<Rightarrow> string \<Rightarrow> detect_state \<Rightarrow> detect_state" where
  "step_verses lines line st =
     (let i = cursor st in
      case (match_number_text line, current_song st) of
        (Some verse_match, Some current) \<Rightarrow>
          (case extract_numbered_verse lines i verse_match of (verse_data, next_i) \<Rightarrow>
             st\<lparr>cursor := next_i, current_song := Some (append_verse current verse_data)\<rparr>)
      | (_, Some current) \<Rightarrow>
          if is_potential_verse line then
            (case extract_unnumbered_verse lines i current of (verse_data, next_i) \<Rightarrow>
               st\<lparr>cursor := next_i, current_song := Some (append_verse current verse_data)\<rparr>)
          else st\<lparr>cursor := i + 1\<rparr>
      | (_, None) \<Rightarrow> st\<lparr>cursor := i + 1\<rparr>)"

definition step_header :: "string list \<Rightarrow> string \<Rightarrow> detect_state \<Rightarrow> detect_state option" where
  "step_header lines line st =
     (let i = cursor st in
      case match_number_text line of
        Some song_match \<Rightarrow>
          if length (snd song_match) > 3 \<and> is_song_title lines i then
            (case create_new_song song_match (struct st) (current_song st) of
               (structure1, new_song) \<Rightarrow>
                 Some (st\<lparr>cursor := i + 1, struct := structure1, current_song := Some new_song\<rparr>))
          else None
      | None \<Rightarrow> None)"

definition step :: "string list \<Rightarrow> detect_state \<Rightarrow> detect_state" where
  "step lines st =
     (let i = cursor st; line = strip (lines ! i) in
      if line = [] then st\<lparr>cursor := i + 1\<rparr>
      else case step_header lines line st of
        Some st1 \<Rightarrow> st1
      | None \<Rightarrow>
          if is_main_title line (struct st) (current_song st)
          then st\<lparr>cursor := i + 1, struct := (struct st)\<lparr>title := line\<rparr>\<rparr>
          else if is_chorus_line line \<and> current_song st \<noteq> None
          then (case extract_chorus lines i of (chorus_lines, next_i) \<Rightarrow>
                  st\<lparr>cursor := next_i,
                     current_song := map_option (\<lambda>cs. cs\<lparr>chorus := chorus_lines\<rparr>) (current_song st)\<rparr>)
          else step_verses lines line st)"

text \<open>
  The main loop. Nothing in its definition says that it ends: a run that went on for
  ever would be the value \<open>None\<close>.
\<close>

partial_function (option) detect_loop :: "string list \<Rightarrow> detect_state \<Rightarrow> detect_state option" where
  "detect_loop lines st =
     (if cursor st < length lines then detect_loop lines (step lines st) else Some st)"

declare detect_loop.simps [code]

definition finish :: "detect_state \<Rightarrow> document" where
  "finish st =
     (let structure1 = (case current_song st of
                          Some cs \<Rightarrow> (struct st)\<lparr>songs := songs (struct st) @ [cs]\<rparr>
                        | None \<Rightarrow> struct st)
      in structure1\<lparr>songs := filter_valid_songs (songs structure1)\<rparr>)"

definition detect_structure :: "string \<Rightarrow> document option" where
  "detect_structure text =
     (let lines = split_on (CHR 0x0A) text;
          structure0 = \<lparr>title = [], songs = [],
                        total_lines = length (filter (\<lambda>l. strip l \<noteq> []) lines)\<rparr>
      in map_option finish
           (detect_loop lines \<lparr>cursor = 0, struct = structure0, current_song = None\<rparr>))"

section \<open>TextCleaner\<close>

text \<open>
  \<open>str.lower\<close> of one character, as the regular expression engine applies it under
  \<open>re.IGNORECASE\<close>.
\<close>

definition lower_char :: "char \<Rightarrow> char" where
  "lower_char c = (case map_of (zip upper_letters lower_letters) c of Some l \<Rightarrow> l | None \<Rightarrow> c)"

text \<open>
  \<open>\w\<close>: the letters and digits of Latin-1 and the underscore.
\<close>

definition is_word_char :: "char \<Rightarrow> bool" where
  "is_word_char c =
     (c \<in> set lower_letters \<or> c \<in> set upper_letters \<or> is_digit c \<or>
      c \<in> set [CHR ''_'', CHR 0xAA, CHR 0xB2, CHR 0xB3, CHR 0xB5, CHR 0xB9, CHR 0xBA,
                 CHR 0xBC, CHR 0xBD, CHR 0xBE, CHR 0xDF, CHR 0xFF])"

text \<open>
  The musical patterns are sequences of repeated character classes and of anchors. A class
  lists characters, with or without \<open>\s\<close>, or is the dot. Every class of the patterns lists
  lower case letters and punctuation only, so under \<open>re.IGNORECASE\<close> a character is in the
  class when its lower case form is listed. The em dash of the patterns (U+2014) is beyond
  Latin-1 and is left out of the lists.
\<close>

datatype cls = Chars string | CharsOrSpace string | AnyChar

fun cls_match :: "cls \<Rightarrow> char \<Rightarrow> bool" where
  "cls_match (Chars cs) c = (lower_char c \<in> set cs)"
| "cls_match (CharsOrSpace cs) c = (is_space c \<or> lower_char c \<in> set cs)"
| "cls_match AnyChar c = (c \<noteq> CHR 0x0A)"

text \<open>
  \<open>Rep c lo hi\<close> is the class \<open>c\<close> repeated \<open>lo\<close> times at least and \<open>hi\<close> times at
  most (greedy); \<open>Bol\<close> is \<open>^\<close>, \<open>Eol\<close> is \<open>$\<close> and \<open>WordBoundary\<close> is \<open>\b\<close>.
\<close>

datatype item = Rep cls nat "nat option" | Bol | Eol | WordBoundary

definition at_word_boundary :: "string \<Rightarrow> nat \<Rightarrow> bool" where
  "at_word_boundary s p =
     ((0 < p \<and> p \<le> length s \<and> is_word_char (s ! (p - 1))) \<noteq> (p < length s \<and> is_word_char (s ! p)))"

definition at_end :: "string \<Rightarrow> nat \<Rightarrow> bool" where
  "at_end s p = (p = length s \<or> (p + 1 = length s \<and> s ! p = CHR 0x0A))"

text \<open>
  The match of a pattern at position \<open>p\<close> of \<open>s\<close>: the position where it ends. A
  repetition takes the longest run and gives back one character at a time.
\<close>

primrec match_items :: "item list \<Rightarrow> string \<Rightarrow> nat \<Rightarrow> nat option" where
  "match_items [] s p = Some p"
| "match_items (it # its) s p =
     (case it of
        Rep c lo hi \<Rightarrow>
          (let run = length (takeWhile (cls_match c) (drop p s)) in
           try_counts (\<lambda>k. match_items its s (p + k)) lo
             (case hi of None \<Rightarrow> run | Some h \<Rightarrow> min h run))
      | Bol \<Rightarrow> if p = 0 then match_items its s p else None
      | Eol \<Rightarrow> if at_end s p then match_items its s p else None
      | WordBoundary \<Rightarrow> if at_word_boundary s p then match_items its s p else None)"

text \<open>
  \<open>re.sub(pattern, '', s)\<close>: the matches are cut out from left to right, the search going on
  where a match ended. None of the patterns matches the empty string; a position where the
  match is empty keeps its character.
\<close>

function sub_from :: "item list \<Rightarrow> string \<Rightarrow> nat \<Rightarrow> string" where
  "sub_from r s p =
     (if p < length s then
        (case match_items r s p of
           Some e \<Rightarrow> if p < e then sub_from r s e else s ! p # sub_from r s (p + 1)
         | None \<Rightarrow> s ! p # sub_from r s (p + 1))
      else [])"
  by pat_completeness auto
termination
  by (relation "measure (\<lambda>(r, s, p). length s - p)") auto

declare sub_from.simps [simp del]

definition re_sub :: "item list \<Rightarrow> string \<Rightarrow> string" where
  "re_sub r s = sub_from r s 0"

definition apostrophe :: char where
  "apostrophe = CHR 0x27"

definition spaces :: item where
  "spaces = Rep (CharsOrSpace []) 0 None"

definition MUSICAL_PATTERNS :: "item list list" where
  "MUSICAL_PATTERNS =
    [[Rep (Chars '':'') 1 None, Rep (Chars ''-.:'') 1 None, Rep (Chars ''|'') 0 None],
     [Rep (Chars ''smtdfrl'') 1 None, Rep (Chars ('','' @ [apostrophe])) 0 None, spaces,
      Rep (Chars '':.-'') 1 None, spaces, Rep (Chars (''smtdfrl,'' @ [apostrophe])) 0 None],
     [Rep (Chars ''|'') 1 None, spaces, Rep (Chars '':.-'') 1 None, spaces,
      Rep (Chars ''|'') 0 None],
     [Bol, Rep (CharsOrSpace (''sd,'' @ [apostrophe] @ '':-|.'')) 1 None, Eol],
     [Rep (Chars ''drmfslti'') 1 None, Rep (Chars ('','' @ [apostrophe])) 0 None, spaces,
      Rep (Chars '':-.'') 1 None, spaces, Rep (Chars (''drmfslti,'' @ [apostrophe])) 0 None],
     [WordBoundary, Rep (Chars ''abcdefghijklmnopqrstuvwxyz'') 1 (Some 1),
      Rep (Chars ('','' @ [apostrophe])) 1 None, spaces, Rep (Chars '':-.'') 1 None],
     [Rep (Chars '':-.'') 3 None],
     [Bol, Rep (Chars ''|'') 1 None, Rep AnyChar 0 None, Rep (Chars ''|'') 1 None, Eol],
     [Bol, spaces, Rep (Chars '':.-'') 1 None, spaces, Eol],
     [WordBoundary, Rep (Chars ''smtdfrl'') 1 None, Rep (Chars ('','' @ [apostrophe])) 0 None,
      Rep (Chars '':-.'') 1 None, Rep (Chars (''smtdfrl,'' @ [apostrophe])) 0 None,
      WordBoundary]]"

text \<open>
  The threshold 0.6, as the fraction 6/10.
\<close>

definition MUSICAL_CHAR_THRESHOLD :: "nat \<times> nat" where
  "MUSICAL_CHAR_THRESHOLD = (6, 10)"

text \<open>
  \<open>len(re.findall(class, line))\<close>: the class of \<open>_is_musical_notation\<close> is matched with no
  flag. In the source file it lists the colon, the hyphen, the three characters U+00E2,
  U+20AC and U+201D, the dot, the pipe, the comma, the apostrophe and the lower case
  letters s, m, d, f, t, l, r, i; of the three, U+00E2 is in Latin-1.
\<close>

definition musical_chars :: "string \<Rightarrow> nat" where
  "musical_chars line =
     length (filter (\<lambda>c. c \<in> set ('':-'' @ [CHR 0xE2] @ ''.|,'' @ [apostrophe] @ ''smdftlri'')) line)"

definition total_chars :: "string \<Rightarrow> nat" where
  "total_chars line = length (filter (\<lambda>c. c \<noteq> CHR '' '') line)"

text \<open>
  The source divides two counts in floating point and compares with 0.6. The quotient is
  rounded to the nearest double, and for a line of fewer than \<open>10^15\<close> characters it is
  above the double 0.6 exactly when the fraction is above 6/10, which is the test here.
\<close>

definition is_musical_notation :: "string \<Rightarrow> bool" where
  "is_musical_notation line =
     (total_chars line > 0 \<and>
      musical_chars line * snd MUSICAL_CHAR_THRESHOLD > fst MUSICAL_CHAR_THRESHOLD * total_chars line)"

definition apply_pattern_cleaning :: "string \<Rightarrow> string" where
  "apply_pattern_cleaning line =
     join '' '' (split_ws (fold (\<lambda>pattern cleaned_line. re_sub pattern cleaned_line) MUSICAL_PATTERNS line))"

text \<open>
  \<open>re.search(r'[a-zA-Z]{3,}', line)\<close>: three letters in a row somewhere in the line.
\<close>

definition is_ascii_letter :: "char \<Rightarrow> bool" where
  "is_ascii_letter c = (c \<in> set ''abcdefghijklmnopqrstuvwxyzABCDEFGHIJKLMNOPQRSTUVWXYZ'')"

fun search_letters3 :: "string \<Rightarrow> bool" where
  "search_letters3 (a # b # c # cs) =
     ((is_ascii_letter a \<and> is_ascii_letter b \<and> is_ascii_letter c) \<or> search_letters3 (b # c # cs))"
| "search_letters3 _ = False"

definition has_valid_content :: "string \<Rightarrow> bool" where
  "has_valid_content line =
     (if line = [] \<or> length (strip line) \<le> 2 then False else search_letters3 line)"

fun clean_lines :: "string list \<Rightarrow> string list" where
  "clean_lines [] = []"
| "clean_lines (line # rest) =
     (let original_line = strip line in
      if original_line = [] then clean_lines rest
      else if is_musical_notation original_line then clean_lines rest
      else (let cleaned_line = apply_pattern_cleaning original_line in
            if has_valid_content cleaned_line then cleaned_line # clean_lines rest
            else clean_lines rest))"

definition clean_musical_notation :: "string \<Rightarrow> string" where
  "clean_musical_notation text = join [CHR 0x0A] (clean_lines (split_on (CHR 0x0A) text))"

section \<open>Predicates of the statements\<close>

text \<open>The number and title of each song of a document, in order.\<close>

definition song_headers :: "document \<Rightarrow> (string \<times> string) list" where
  "song_headers d = map (\<lambda>s. (s_number s, s_title s)) (songs d)"

text \<open>A line that is not empty and has no white space at either end.\<close>

definition trimmed :: "string \<Rightarrow> bool" where
  "trimmed l = (l \<noteq> [] \<and> \<not> is_space (hd l) \<and> \<not> is_space (last l))"

text \<open>
  What holds of every verse the detector stores, of a song, and of the state of the main
  loop.
\<close>

definition verse_ok :: "verse \<Rightarrow> bool" where
  "verse_ok v = (v_lines v \<noteq> [] \<and> length (v_lines v) \<le> 6 \<and> list_all trimmed (v_lines v))"

definition verses_ok :: "song \<Rightarrow> bool" where
  "verses_ok s = list_all verse_ok (verses s)"

definition state_ok :: "detect_state \<Rightarrow> bool" where
  "state_ok st =
     (list_all verses_ok (songs (struct st)) \<and>
      (case current_song st of None \<Rightarrow> True | Some cs \<Rightarrow> verses_ok cs))"


section \<open>Progress of the cursor\<close>

lemma chorus_loop_cursor: "j \<le> snd (chorus_loop lines i j acc)"
proof (induction lines i j acc rule: chorus_loop.induct)
  case (1 lines i j acc)
  show ?case
    using "1.IH" by (subst chorus_loop.simps) (auto simp: Let_def dest: Suc_leD)
qed

lemma numbered_loop_cursor: "j \<le> snd (numbered_loop lines j acc)"
proof (induction lines j acc rule: numbered_loop.induct)
  case (1 lines j acc)
  show ?case
    using "1.IH" by (subst numbered_loop.simps) (auto simp: Let_def dest: Suc_leD)
qed

lemma unnumbered_loop_cursor: "j \<le> snd (unnumbered_loop lines j acc)"
proof (induction lines j acc rule: unnumbered_loop.induct)
  case (1 lines j acc)
  show ?case
    using "1.IH" by (subst unnumbered_loop.simps) (auto simp: Let_def dest: Suc_leD)
qed

lemma extract_chorus_cursor: "extract_chorus lines i = (c, j) \<Longrightarrow> i < j"
  using chorus_loop_cursor [of "i + 1" lines i "[]"] by (simp add: extract_chorus_def)

lemma extract_numbered_verse_cursor: "extract_numbered_verse lines i m = (v, j) \<Longrightarrow> i < j"
  using numbered_loop_cursor [of "i + 1" lines "[snd m]"]
  by (auto simp: extract_numbered_verse_def Let_def split: prod.splits if_splits)

lemma extract_unnumbered_verse_cursor: "extract_unnumbered_verse lines i cs = (v, j) \<Longrightarrow> i < j"
  using unnumbered_loop_cursor [of "i + 1" lines "[strip (lines ! i)]"]
  by (auto simp: extract_unnumbered_verse_def split: prod.splits if_splits)

lemma step_verses_cursor: "cursor st < cursor (step_verses lines line st)"
  by (auto simp: step_verses_def Let_def split: option.splits prod.splits
      dest: extract_numbered_verse_cursor extract_unnumbered_verse_cursor)

lemma step_header_cursor: "step_header lines line st = Some st1 \<Longrightarrow> cursor st < cursor st1"
  by (auto simp: step_header_def Let_def split: option.splits prod.splits if_splits)

lemma step_cursor: "cursor st < cursor (step lines st)"
  using step_verses_cursor [of st lines]
  by (auto simp: step_def Let_def split: option.splits prod.splits
      dest: step_header_cursor extract_chorus_cursor)

lemma detect_loop_total: "\<exists>st1. detect_loop lines st = Some st1"
proof (induction "length lines - cursor st" arbitrary: st rule: less_induct)
  case less
  show ?case
  proof (cases "cursor st < length lines")
    case True
    have "length lines - cursor (step lines st) < length lines - cursor st"
      using True step_cursor [of st lines] by arith
    from less [OF this] show ?thesis
      using True by (subst detect_loop.simps) simp
  next
    case False
    then show ?thesis by (subst detect_loop.simps) simp
  qed
qed

lemma detect_loop_invariant:
  assumes "\<And>s. P s \<Longrightarrow> cursor s < length lines \<Longrightarrow> P (step lines s)"
    and "P st" and "detect_loop lines st = Some st1"
  shows "P st1"
  using assms(2,3)
proof (induction "length lines - cursor st" arbitrary: st rule: less_induct)
  case less
  show ?case
  proof (cases "cursor st < length lines")
    case True
    have m: "length lines - cursor (step lines st) < length lines - cursor st"
      using True step_cursor [of st lines] by arith
    have "detect_loop lines (step lines st) = Some st1"
      using less.prems(2) True by (subst (asm) detect_loop.simps) simp
    from less.hyps [OF m assms(1) [OF less.prems(1) True] this] show ?thesis .
  next
    case False
    then show ?thesis using less.prems by (subst (asm) detect_loop.simps) simp
  qed
qed

section \<open>Properties of the detector\<close>

text \<open>
  C1, as the specification states it: the four-line input with the headers
  \<open>1 Amazing Grace\<close> and \<open>2 Second Song\<close> gives two songs with these numbers and titles.
  It does not: the document has one song.
\<close>

theorem detect_two_songs_counterexample:
  "map_option song_headers
     (detect_structure ''1 Amazing Grace\<newline>How sweet the sound\<newline>2 Second Song\<newline>More words here\<newline>'')
   \<noteq> Some [(''1'', ''Amazing Grace''), (''2'', ''Second Song'')]"
  by code_simp

text \<open>
  C1, amended: on that input the document has exactly one song, number \<open>1\<close> and title
  \<open>Amazing Grace\<close>. The line \<open>2 Second Song\<close> has three words, and the verse
  collection stops at a numbered line only when it has more than three, so the line is a line
  of the first song's verse, as is the line after it.
\<close>

theorem detect_amazing_grace:
  "detect_structure ''1 Amazing Grace\<newline>How sweet the sound\<newline>2 Second Song\<newline>More words here\<newline>'' =
   Some \<lparr>title = [],
     songs = [\<lparr>s_number = ''1'', s_title = ''Amazing Grace'',
       verses = [\<lparr>v_number = ''1'',
         v_lines = [''How sweet the sound'', ''2 Second Song'', ''More words here'']\<rparr>],
       chorus = []\<rparr>],
     total_lines = 4\<rparr>"
  by code_simp

lemma chorus_loop_length:
  "length (fst (chorus_loop lines i j acc)) \<le> length acc + (i + MAX_CHORUS_LINES - j)"
proof (induction lines i j acc rule: chorus_loop.induct)
  case (1 lines i j acc)
  show ?case
    using "1.IH" by (subst chorus_loop.simps) (auto simp: Let_def)
qed

text \<open>
  C7: a chorus of exactly 30 lines for some input. The loop runs while the cursor is below
  \<open>i + MAX_CHORUS_LINES\<close> and the cursor starts at \<open>i + 1\<close>, so no input gives more than
  29 lines; a marker followed by 31 lines gives 29 of them.
\<close>

theorem chorus_never_thirty_lines:
  "length (fst (extract_chorus lines i)) < MAX_CHORUS_LINES \<and>
   extract_chorus (''CHORUS'' # replicate 31 ''la la'') 0 = (replicate 29 ''la la'', 30)"
proof
  show "length (fst (extract_chorus lines i)) < MAX_CHORUS_LINES"
    using chorus_loop_length [of lines i "i + 1" "[]"]
    by (simp add: extract_chorus_def MAX_CHORUS_LINES_def)
  show "extract_chorus (''CHORUS'' # replicate 31 ''la la'') 0 = (replicate 29 ''la la'', 30)"
    by code_simp
qed

text \<open>
  C8: a numbered verse that is dropped for being too short. The collection loop went over
  the second line, the verse is dropped, and the cursor returned is \<open>i + 1\<close>, before the
  line consumed; the unnumbered rule returns the cursor after the lines it consumed.
\<close>

theorem numbered_verse_discard_cursor:
  "numbered_loop [''1 a'', ''bc def''] 1 [''a''] = ([''a'', ''bc def''], 2) \<and>
   extract_numbered_verse [''1 a'', ''bc def''] 0 (''1'', ''a'') = (None, 1) \<and>
   extract_unnumbered_verse [''ab cdef'', ''gh''] 0
     \<lparr>s_number = ''1'', s_title = ''T'', verses = [\<lparr>v_number = ''1'', v_lines = [''x'']\<rparr>], chorus = []\<rparr>
     = (None, 2)"
  by code_simp

text \<open>
  C9: \<open>detect_structure\<close> returns on every input, and every pass of the main loop moves the
  cursor forward. The three collection loops are total functions: each of their passes
  moves their cursor forward, below the number of lines.
\<close>

theorem detect_structure_terminates:
  "(\<exists>d. detect_structure text = Some d) \<and> cursor st < cursor (step lines st)"
  using detect_loop_total [of "split_on (CHR 0x0A) text"] step_cursor [of st lines]
  by (auto simp: detect_structure_def Let_def)

theorem detect_structure_terminates_witness:
  "(\<exists>d. detect_structure ''CHORUS\<newline>1 a b\<newline>2 c d\<newline>3 e f\<newline>'' = Some d) \<and>
   cursor \<lparr>cursor = 0, struct = \<lparr>title = [], songs = [], total_lines = 1\<rparr>, current_song = None\<rparr>
     < cursor (step [''1 Song title''] \<lparr>cursor = 0, struct = \<lparr>title = [], songs = [], total_lines = 1\<rparr>,
          current_song = None\<rparr>)"
  by (rule detect_structure_terminates)

text \<open>
  C5: every song of the document returned has a verse or a chorus line. In the witness the
  first header opens a song that gets neither, and the document does not have it.
\<close>

theorem songs_have_content:
  "detect_structure text = Some d \<Longrightarrow> s \<in> set (songs d) \<Longrightarrow> verses s \<noteq> [] \<or> chorus s \<noteq> []"
proof -
  assume d: "detect_structure text = Some d" and s: "s \<in> set (songs d)"
  from d obtain st where "d = finish st"
    by (auto simp: detect_structure_def Let_def)
  then obtain ss where "songs d = filter_valid_songs ss"
    by (simp add: finish_def Let_def)
  with s show ?thesis
    by (simp add: filter_valid_songs_def)
qed

theorem songs_have_content_witness:
  "detect_structure ''1 First Song\<newline>2 Second Song here\<newline>More words here\<newline>'' =
     Some \<lparr>title = [],
       songs = [\<lparr>s_number = ''2'', s_title = ''Second Song here'',
         verses = [\<lparr>v_number = ''1'', v_lines = [''More words here'']\<rparr>], chorus = []\<rparr>],
       total_lines = 3\<rparr> \<and>
   \<not> (verses \<lparr>s_number = ''2'', s_title = ''Second Song here'',
         verses = [\<lparr>v_number = ''1'', v_lines = [''More words here'']\<rparr>], chorus = []\<rparr> = [] \<and>
      chorus \<lparr>s_number = ''2'', s_title = ''Second Song here'',
         verses = [\<lparr>v_number = ''1'', v_lines = [''More words here'']\<rparr>], chorus = []\<rparr> = [])"
proof -
  have e: "detect_structure ''1 First Song\<newline>2 Second Song here\<newline>More words here\<newline>'' =
     Some \<lparr>title = [],
       songs = [\<lparr>s_number = ''2'', s_title = ''Second Song here'',
         verses = [\<lparr>v_number = ''1'', v_lines = [''More words here'']\<rparr>], chorus = []\<rparr>],
       total_lines = 3\<rparr>"
    by code_simp
  from songs_have_content [OF e] show ?thesis using e by simp
qed

section \<open>Strings and matches\<close>

lemma last_dropWhile: "dropWhile P xs \<noteq> [] \<Longrightarrow> last (dropWhile P xs) = last xs"
proof -
  assume n: "dropWhile P xs \<noteq> []"
  have "last xs = last (takeWhile P xs @ dropWhile P xs)" by simp
  also have "\<dots> = last (dropWhile P xs)" using n by (rule last_appendR)
  finally show ?thesis by simp
qed

lemma strip_trimmed: "strip s \<noteq> [] \<Longrightarrow> trimmed (strip s)"
proof -
  assume n: "strip s \<noteq> []"
  let ?t = "dropWhile is_space s"
  let ?u = "dropWhile is_space (rev ?t)"
  from n have u: "?u \<noteq> []" by (simp add: strip_def)
  have t: "?t \<noteq> []"
  proof
    assume "?t = []"
    then have "?u = []" by (simp only: rev.simps dropWhile.simps)
    with u show False ..
  qed
  have "last (strip s) = hd ?u" using u by (simp add: strip_def last_rev)
  moreover have "\<not> is_space (hd ?u)" using u by (rule hd_dropWhile)
  moreover have "hd (strip s) = last ?u" using u by (simp add: strip_def hd_rev)
  moreover have "last ?u = last (rev ?t)" using u by (rule last_dropWhile)
  moreover have "last (rev ?t) = hd ?t" using t by (simp add: last_rev)
  moreover have "\<not> is_space (hd ?t)" using t by (rule hd_dropWhile)
  ultimately show ?thesis using n by (simp add: trimmed_def)
qed

lemma strip_id: "trimmed s \<Longrightarrow> strip s = s"
proof -
  assume t: "trimmed s"
  then obtain c cs where s: "s = c # cs" and c: "\<not> is_space c"
    by (cases s) (auto simp: trimmed_def)
  then have d: "dropWhile is_space s = s" by simp
  from t have "rev s \<noteq> []" "\<not> is_space (hd (rev s))"
    by (auto simp: trimmed_def hd_rev)
  then have "dropWhile is_space (rev s) = rev s"
    by (cases "rev s") auto
  with d show ?thesis by (simp add: strip_def)
qed

lemma set_strip: "x \<in> set (strip s) \<Longrightarrow> x \<in> set s"
  by (auto simp: strip_def dest!: set_dropWhileD)

lemma try_counts_top: "lo \<le> n \<Longrightarrow> f n = Some x \<Longrightarrow> try_counts f lo n = Some x"
  by (cases n) auto

lemma is_space_newline: "is_space (CHR 0x0A)"
  by (simp add: is_space_def)

lemma match_number_text_trimmed:
  assumes t: "trimmed s" and m: "match_number_text s = Some (num, txt)"
  shows "txt \<noteq> [] \<and> \<not> is_space (hd txt) \<and> (CHR 0x0A \<notin> set s \<longrightarrow> trimmed txt)"
proof -
  let ?r = "dropWhile is_digit s"
  let ?n = "length (takeWhile is_space ?r)"
  let ?d = "dropWhile is_space ?r"
  let ?f = "\<lambda>k. let t = takeWhile (\<lambda>c. c \<noteq> CHR 0x0A) (drop k ?r)
                in if t = [] then None else Some (takeWhile is_digit s, t)"
  from m have tc: "try_counts ?f 1 ?n = Some (num, txt)"
    by (simp add: match_number_text_def Let_def split: if_splits)
  have n: "0 < ?n"
  proof (rule ccontr)
    assume "\<not> 0 < ?n"
    then have "?n = 0" by simp
    with tc show False by simp
  qed
  have r: "?r \<noteq> []"
  proof
    assume "?r = []"
    then have "?n = 0" by (simp only: takeWhile.simps list.size)
    with n show False by simp
  qed
  have lr: "last ?r = last s" using r by (rule last_dropWhile)
  have d: "?d \<noteq> []"
  proof
    assume "?d = []"
    then have "\<forall>c\<in>set ?r. is_space c" by (simp add: dropWhile_eq_Nil_conv)
    with r have "is_space (last ?r)" by simp
    with lr t show False by (simp add: trimmed_def)
  qed
  have hd: "\<not> is_space (hd ?d)" using d by (rule hd_dropWhile)
  then have hn: "hd ?d \<noteq> CHR 0x0A" using is_space_newline by auto
  have dr: "drop ?n ?r = ?d" by (simp add: dropWhile_eq_drop)
  let ?t = "takeWhile (\<lambda>c. c \<noteq> CHR 0x0A) ?d"
  from d hn have tne: "?t \<noteq> []" and th: "hd ?t = hd ?d"
    by (cases ?d; simp)+
  have "?f ?n = Some (takeWhile is_digit s, ?t)"
    using tne dr by (simp add: Let_def)
  moreover from n have "1 \<le> ?n" by arith
  ultimately have "try_counts ?f 1 ?n = Some (takeWhile is_digit s, ?t)"
    by (rule try_counts_top [rotated])
  with tc have tx: "txt = ?t" by simp
  have "trimmed txt" if nl: "CHR 0x0A \<notin> set s"
  proof -
    have "set ?d \<subseteq> set s"
      by (auto dest!: set_dropWhileD)
    with nl have "?t = ?d" by (auto simp: takeWhile_eq_all_conv)
    with tx have e: "txt = ?d" by simp
    have "last ?d = last ?r" using d by (rule last_dropWhile)
    with lr t have "\<not> is_space (last ?d)" by (simp add: trimmed_def)
    with d hd show ?thesis unfolding trimmed_def e by (intro conjI)
  qed
  with tx tne th hd show ?thesis by simp
qed

section \<open>Verses\<close>

lemma numbered_loop_lines:
  "numbered_loop lines j acc = (vl, j1) \<Longrightarrow>
     \<exists>more. vl = acc @ more \<and> list_all trimmed more \<and>
       (length acc \<le> MAX_VERSE_LINES \<longrightarrow> length vl \<le> MAX_VERSE_LINES)"
proof (induction lines j acc arbitrary: vl j1 rule: numbered_loop.induct)
  case (1 lines j acc)
  note eq = "1.prems" [unfolded numbered_loop.simps [of lines j acc]]
  show ?case
  proof (cases "j < length lines \<and> length acc < MAX_VERSE_LINES")
    case False
    with eq show ?thesis by auto
  next
    case inw: True
    let ?l = "strip (lines ! j)"
    show ?thesis
    proof (cases "?l = []")
      case True
      with eq inw have "numbered_loop lines (j + 1) acc = (vl, j1)"
        by (simp add: Let_def)
      from "1.IH"(1) [OF inw refl True this] show ?thesis .
    next
      case nb: False
      show ?thesis
      proof (cases "match_leading_number ?l \<or> is_chorus_line ?l")
        case True
        with eq inw nb have "vl = acc"
          by (auto simp: Let_def split: if_splits)
        then show ?thesis by simp
      next
        case False
        then have a: "\<not> match_leading_number ?l" and b: "\<not> is_chorus_line ?l"
          by auto
        from eq inw nb a b have "numbered_loop lines (j + 1) (acc @ [?l]) = (vl, j1)"
          by (simp add: Let_def)
        from "1.IH"(2) [OF inw refl nb a b this] obtain more where
          m: "vl = (acc @ [?l]) @ more" "list_all trimmed more"
             "length (acc @ [?l]) \<le> MAX_VERSE_LINES \<longrightarrow> length vl \<le> MAX_VERSE_LINES"
          by blast
        have "vl = acc @ (?l # more)" using m(1) by simp
        moreover have "list_all trimmed (?l # more)"
          using m(2) strip_trimmed [OF nb] by simp
        moreover have "length vl \<le> MAX_VERSE_LINES" using m(3) inw by simp
        ultimately show ?thesis by blast
      qed
    qed
  qed
qed

lemma unnumbered_loop_lines:
  "unnumbered_loop lines j acc = (vl, j1) \<Longrightarrow>
     \<exists>more. vl = acc @ more \<and> list_all trimmed more \<and>
       (length acc \<le> 4 \<longrightarrow> length vl \<le> 4)"
proof (induction lines j acc arbitrary: vl j1 rule: unnumbered_loop.induct)
  case (1 lines j acc)
  note eq = "1.prems" [unfolded unnumbered_loop.simps [of lines j acc]]
  show ?case
  proof (cases "j < length lines \<and> length acc < 4")
    case False
    with eq show ?thesis by auto
  next
    case inw: True
    let ?l = "strip (lines ! j)"
    show ?thesis
    proof (cases "?l = []")
      case True
      with eq inw have "unnumbered_loop lines (j + 1) acc = (vl, j1)"
        by (simp add: Let_def)
      from "1.IH"(1) [OF inw refl True this] show ?thesis .
    next
      case nb: False
      show ?thesis
      proof (cases "(match_leading_number ?l \<and> length (split_ws ?l) > 3) \<or> is_chorus_line ?l")
        case True
        with eq inw nb have "vl = acc"
          by (auto simp: Let_def split: if_splits)
        then show ?thesis by simp
      next
        case False
        then have a: "\<not> (match_leading_number ?l \<and> length (split_ws ?l) > 3)"
          and b: "\<not> is_chorus_line ?l"
          by auto
        from eq inw nb a b have "unnumbered_loop lines (j + 1) (acc @ [?l]) = (vl, j1)"
          by (simp add: Let_def)
        from "1.IH"(2) [OF inw refl nb a b this] obtain more where
          m: "vl = (acc @ [?l]) @ more" "list_all trimmed more"
             "length (acc @ [?l]) \<le> 4 \<longrightarrow> length vl \<le> 4"
          by blast
        have "vl = acc @ (?l # more)" using m(1) by simp
        moreover have "list_all trimmed (?l # more)"
          using m(2) strip_trimmed [OF nb] by simp
        moreover have "length vl \<le> 4" using m(3) inw by simp
        ultimately show ?thesis by blast
      qed
    qed
  qed
qed

lemma extract_numbered_verse_ok:
  assumes "trimmed (snd m)" and "extract_numbered_verse lines i m = (Some v, j)"
  shows "verse_ok v"
proof -
  from assms(2) obtain vl j1 where
    l: "numbered_loop lines (i + 1) [snd m] = (vl, j1)" and v: "v_lines v = vl"
    by (auto simp: extract_numbered_verse_def Let_def split: if_splits prod.splits)
  from numbered_loop_lines [OF l] obtain more where
    "vl = [snd m] @ more" "list_all trimmed more" "length vl \<le> MAX_VERSE_LINES"
    by (auto simp: MAX_VERSE_LINES_def)
  with assms(1) v show ?thesis
    by (simp add: verse_ok_def MAX_VERSE_LINES_def)
qed

lemma extract_unnumbered_verse_ok:
  assumes "strip (lines ! i) \<noteq> []" and "extract_unnumbered_verse lines i cs = (Some v, j)"
  shows "verse_ok v"
proof -
  from assms(2) obtain vl j1 where
    l: "unnumbered_loop lines (i + 1) [strip (lines ! i)] = (vl, j1)" and v: "v_lines v = vl"
    by (auto simp: extract_unnumbered_verse_def split: if_splits prod.splits)
  from unnumbered_loop_lines [OF l] obtain more where
    "vl = [strip (lines ! i)] @ more" "list_all trimmed more" "length vl \<le> 4"
    by auto
  with strip_trimmed [OF assms(1)] v show ?thesis
    by (simp add: verse_ok_def)
qed

lemma append_verse_ok:
  "verses_ok cs \<Longrightarrow> (\<And>v. vd = Some v \<Longrightarrow> verse_ok v) \<Longrightarrow> verses_ok (append_verse cs vd)"
  by (cases vd) (simp_all add: append_verse_def verses_ok_def)

lemma step_verses_ok:
  assumes ok: "state_ok st" and line: "trimmed line" "CHR 0x0A \<notin> set line"
    and l: "line = strip (lines ! cursor st)"
  shows "state_ok (step_verses lines line st)"
proof (cases "current_song st")
  case None
  with ok show ?thesis
    by (simp add: step_verses_def state_ok_def Let_def split: option.splits)
next
  case (Some cs)
  with ok have cs: "verses_ok cs" and ss: "list_all verses_ok (songs (struct st))"
    by (simp_all add: state_ok_def)
  show ?thesis
  proof (cases "match_number_text line")
    case (Some m)
    obtain vd j where e: "extract_numbered_verse lines (cursor st) m = (vd, j)"
      by (cases "extract_numbered_verse lines (cursor st) m")
    have "trimmed (snd m)"
      using match_number_text_trimmed [OF line(1), of "fst m" "snd m"] Some line(2) by simp
    then have "\<And>v. vd = Some v \<Longrightarrow> verse_ok v"
      using e extract_numbered_verse_ok by blast
    with cs have "verses_ok (append_verse cs vd)" by (rule append_verse_ok)
    with ss e Some \<open>current_song st = Some cs\<close> show ?thesis
      by (simp add: step_verses_def state_ok_def Let_def)
  next
    case None
    show ?thesis
    proof (cases "is_potential_verse line")
      case False
      with None ok \<open>current_song st = Some cs\<close> show ?thesis
        by (simp add: step_verses_def state_ok_def Let_def)
    next
      case True
      obtain vd j where e: "extract_unnumbered_verse lines (cursor st) cs = (vd, j)"
        by (cases "extract_unnumbered_verse lines (cursor st) cs")
      have "strip (lines ! cursor st) \<noteq> []"
        using line(1) l by (simp add: trimmed_def)
      then have "\<And>v. vd = Some v \<Longrightarrow> verse_ok v"
        using e extract_unnumbered_verse_ok by blast
      with cs have "verses_ok (append_verse cs vd)" by (rule append_verse_ok)
      with ss e None True \<open>current_song st = Some cs\<close> show ?thesis
        by (simp add: step_verses_def state_ok_def Let_def)
    qed
  qed
qed

lemma step_header_ok:
  "state_ok st \<Longrightarrow> step_header lines line st = Some st1 \<Longrightarrow> state_ok st1"
  by (auto simp: step_header_def state_ok_def create_new_song_def verses_ok_def Let_def
      split: option.splits if_splits)

lemma step_ok:
  assumes ok: "state_ok st" and i: "cursor st < length lines"
    and nl: "\<forall>l\<in>set lines. CHR 0x0A \<notin> set l"
  shows "state_ok (step lines st)"
proof -
  let ?line = "strip (lines ! cursor st)"
  show ?thesis
  proof (cases "?line = []")
    case True
    with ok show ?thesis by (simp add: step_def state_ok_def Let_def)
  next
    case nb: False
    then have t: "trimmed ?line" by (rule strip_trimmed)
    have n: "CHR 0x0A \<notin> set ?line"
      using nl i set_strip [of "CHR 0x0A" "lines ! cursor st"] nth_mem [OF i] by blast
    show ?thesis
    proof (cases "step_header lines ?line st")
      case (Some st1)
      with nb ok step_header_ok [OF ok Some] show ?thesis
        by (simp add: step_def Let_def)
    next
      case None
      have v: "state_ok (step_verses lines ?line st)"
        using ok t n by (rule step_verses_ok) simp
      have c: "state_ok (st\<lparr>cursor := j, current_song := map_option (\<lambda>cs. cs\<lparr>chorus := c\<rparr>) (current_song st)\<rparr>)"
        for j c
        using ok by (cases "current_song st") (simp_all add: state_ok_def verses_ok_def)
      have m: "state_ok (st\<lparr>cursor := j, struct := (struct st)\<lparr>title := x\<rparr>\<rparr>)" for j x
        using ok by (simp add: state_ok_def)
      show ?thesis
        using nb None v c m by (simp add: step_def Let_def split: prod.splits)
    qed
  qed
qed

lemma split_on_no_sep: "l \<in> set (split_on sep s) \<Longrightarrow> sep \<notin> set l"
proof (induction s arbitrary: l)
  case Nil
  then show ?case by simp
next
  case (Cons c cs)
  show ?case
  proof (cases "c = sep")
    case True
    with Cons show ?thesis by auto
  next
    case False
    show ?thesis
    proof (cases "split_on sep cs")
      case Nil
      with Cons.prems False show ?thesis by simp
    next
      case (Cons x xs)
      with Cons.prems False Cons.IH [of x] Cons.IH [of l] show ?thesis by auto
    qed
  qed
qed

lemma finish_ok:
  assumes "state_ok st" and "s \<in> set (songs (finish st))"
  shows "verses_ok s"
proof -
  from assms(2) have "s \<in> set (songs (struct st)) \<or> current_song st = Some s"
    by (auto simp: finish_def filter_valid_songs_def Let_def split: option.splits)
  with assms(1) show ?thesis
    by (auto simp: state_ok_def list_all_iff)
qed

text \<open>
  C10: every verse of every song of the document returned has between 1 and 6 lines, and
  each line is not empty and has no white space at either end.
\<close>

theorem verse_lines_bounded_and_trimmed:
  assumes d: "detect_structure text = Some d" and s: "s \<in> set (songs d)"
    and v: "v \<in> set (verses s)"
  shows "1 \<le> length (v_lines v) \<and> length (v_lines v) \<le> 6 \<and>
         (\<forall>l\<in>set (v_lines v). l \<noteq> [] \<and> \<not> is_space (hd l) \<and> \<not> is_space (last l))"
proof -
  let ?lines = "split_on (CHR 0x0A) text"
  from d obtain st0 st where
    loop: "detect_loop ?lines st0 = Some st" and fin: "d = finish st" and
    init: "current_song st0 = None" "songs (struct st0) = []"
    by (auto simp: detect_structure_def Let_def)
  have "state_ok (step ?lines x)" if "state_ok x" "cursor x < length ?lines" for x
    using that split_on_no_sep by (intro step_ok) auto
  moreover have "state_ok st0" using init by (simp add: state_ok_def)
  ultimately have "state_ok st"
    using loop by (rule detect_loop_invariant)
  with s fin have "verses_ok s" by (auto intro: finish_ok)
  with v have "verse_ok v" by (simp add: verses_ok_def list_all_iff)
  then show ?thesis
    by (auto simp: verse_ok_def trimmed_def list_all_iff Suc_le_eq)
qed

theorem verse_lines_bounded_and_trimmed_witness:
  "detect_structure ''1 Song title here\<newline>1 a\<newline>  b \<newline>c\<newline>\<newline>d\<newline>e\<newline>f\<newline>g\<newline>'' =
     Some \<lparr>title = [],
       songs = [\<lparr>s_number = ''1'', s_title = ''Song title here'',
         verses = [\<lparr>v_number = ''1'', v_lines = [''a'', ''b'', ''c'', ''d'', ''e'', ''f'']\<rparr>],
         chorus = []\<rparr>],
       total_lines = 8\<rparr> \<and>
   1 \<le> length (v_lines \<lparr>v_number = ''1'', v_lines = [''a'', ''b'', ''c'', ''d'', ''e'', ''f'']\<rparr>) \<and>
   length (v_lines \<lparr>v_number = ''1'', v_lines = [''a'', ''b'', ''c'', ''d'', ''e'', ''f'']\<rparr>) \<le> 6 \<and>
   \<not> list_ex (\<lambda>l. l = [] \<or> is_space (hd l) \<or> is_space (last l))
       (v_lines \<lparr>v_number = ''1'', v_lines = [''a'', ''b'', ''c'', ''d'', ''e'', ''f'']\<rparr>)"
proof -
  have e: "detect_structure ''1 Song title here\<newline>1 a\<newline>  b \<newline>c\<newline>\<newline>d\<newline>e\<newline>f\<newline>g\<newline>'' =
     Some \<lparr>title = [],
       songs = [\<lparr>s_number = ''1'', s_title = ''Song title here'',
         verses = [\<lparr>v_number = ''1'', v_lines = [''a'', ''b'', ''c'', ''d'', ''e'', ''f'']\<rparr>],
         chorus = []\<rparr>],
       total_lines = 8\<rparr>"
    by code_simp
  from verse_lines_bounded_and_trimmed [OF e, of _ "\<lparr>v_number = ''1'', v_lines = [''a'', ''b'', ''c'', ''d'', ''e'', ''f'']\<rparr>"]
  show ?thesis using e by (simp add: list_ex_iff)
qed

lemma join_Cons: "xs \<noteq> [] \<Longrightarrow> join sep (x # xs) = x @ sep @ join sep xs"
  by (cases xs) simp_all

lemma hd_join: "x \<noteq> [] \<Longrightarrow> hd (join sep (x # xs)) = hd x"
  by (cases xs) simp_all

lemma last_join:
  "xs \<noteq> [] \<Longrightarrow> last xs \<noteq> [] \<Longrightarrow> join sep xs \<noteq> [] \<and> last (join sep xs) = last (last xs)"
proof (induction sep xs rule: join.induct)
  case (3 sep x y ys)
  then have "join sep (y # ys) \<noteq> []" "last (join sep (y # ys)) = last (last (y # ys))"
    by simp_all
  then show ?case by simp
qed simp_all

lemma length_join: "list_all (\<lambda>l. l \<noteq> []) xs \<Longrightarrow> 2 * length xs \<le> length (join [c] xs) + 1"
proof (induction xs)
  case Nil
  show ?case by simp
next
  case (Cons x xs)
  then have x: "1 \<le> length x" by (simp add: Suc_le_eq)
  show ?case
  proof (cases xs)
    case Nil
    with x show ?thesis by simp
  next
    case (Cons y ys)
    with Cons.IH Cons.prems x show ?thesis by simp
  qed
qed

lemma numbered_loop_collects:
  "length acc + n = MAX_VERSE_LINES \<Longrightarrow> j + n \<le> length lines \<Longrightarrow>
   (\<forall>k<n. strip (lines ! (j + k)) \<noteq> [] \<and> \<not> match_leading_number (strip (lines ! (j + k))) \<and>
      \<not> is_chorus_line (strip (lines ! (j + k)))) \<Longrightarrow>
   numbered_loop lines j acc = (acc @ map (\<lambda>k. strip (lines ! k)) [j ..< j + n], j + n)"
proof (induction n arbitrary: j acc)
  case 0
  then show ?case by (subst numbered_loop.simps) simp
next
  case (Suc n)
  have "0 < Suc n" by simp
  from Suc.prems(3) [rule_format, OF this]
  have g: "strip (lines ! j) \<noteq> []" "\<not> match_leading_number (strip (lines ! j))"
    "\<not> is_chorus_line (strip (lines ! j))"
    by simp_all
  have rest: "\<forall>k<n. strip (lines ! (j + 1 + k)) \<noteq> [] \<and>
      \<not> match_leading_number (strip (lines ! (j + 1 + k))) \<and>
      \<not> is_chorus_line (strip (lines ! (j + 1 + k)))"
  proof (intro allI impI)
    fix k assume "k < n"
    then have "Suc k < Suc n" by simp
    from Suc.prems(3) [rule_format, OF this]
    show "strip (lines ! (j + 1 + k)) \<noteq> [] \<and>
      \<not> match_leading_number (strip (lines ! (j + 1 + k))) \<and>
      \<not> is_chorus_line (strip (lines ! (j + 1 + k)))"
      by simp
  qed
  have "numbered_loop lines (j + 1) (acc @ [strip (lines ! j)]) =
      ((acc @ [strip (lines ! j)]) @ map (\<lambda>k. strip (lines ! k)) [j + 1 ..< j + 1 + n], j + 1 + n)"
    using Suc.prems(1,2) rest by (intro Suc.IH) simp_all
  moreover have "j < length lines" "length acc < MAX_VERSE_LINES"
    using Suc.prems(1,2) by simp_all
  moreover have "[j ..< j + Suc n] = j # [j + 1 ..< j + 1 + n]"
    using upt_conv_Cons [of j "j + Suc n"] by simp
  ultimately show ?case
    using g by (subst numbered_loop.simps) (simp del: upt_Suc)
qed

lemma match_number_text_Nil: "match_number_text [] = None"
  by (simp add: match_number_text_def)

text \<open>
  C6: a numbered verse start whose text has 15 words or fewer, followed by 50 lines that are
  not blank, have no leading number and no chorus keyword, gives a verse of exactly 6 lines:
  the text of the start and the next 5 lines. The cursor returned is 6 lines on.
\<close>

theorem numbered_verse_capped:
  assumes m: "match_number_text (strip (lines ! i)) = Some verse_match"
    and w: "length (split_ws (snd verse_match)) \<le> 15"
    and len: "i + 50 < length lines"
    and good: "\<forall>k\<in>{1..50}. strip (lines ! (i + k)) \<noteq> [] \<and>
        \<not> match_leading_number (strip (lines ! (i + k))) \<and>
        \<not> is_chorus_line (strip (lines ! (i + k)))"
  shows "\<exists>v. extract_numbered_verse lines i verse_match = (Some v, i + 6) \<and>
           v_number v = fst verse_match \<and>
           v_lines v = snd verse_match # map (\<lambda>k. strip (lines ! k)) [i + 1 ..< i + 6] \<and>
           length (v_lines v) = 6"
proof -
  let ?more = "map (\<lambda>k. strip (lines ! k)) [i + 1 ..< i + 1 + 5]"
  let ?vl = "snd verse_match # ?more"
  have g: "\<forall>k<5. strip (lines ! (i + 1 + k)) \<noteq> [] \<and>
      \<not> match_leading_number (strip (lines ! (i + 1 + k))) \<and>
      \<not> is_chorus_line (strip (lines ! (i + 1 + k)))"
  proof (intro allI impI)
    fix k :: nat assume "k < 5"
    then have "k + 1 \<in> {1..50}" by simp
    with good have "strip (lines ! (i + (k + 1))) \<noteq> [] \<and>
        \<not> match_leading_number (strip (lines ! (i + (k + 1)))) \<and>
        \<not> is_chorus_line (strip (lines ! (i + (k + 1))))"
      by blast
    then show "strip (lines ! (i + 1 + k)) \<noteq> [] \<and>
      \<not> match_leading_number (strip (lines ! (i + 1 + k))) \<and>
      \<not> is_chorus_line (strip (lines ! (i + 1 + k)))"
      by (simp add: add.commute add.left_commute)
  qed
  have loop: "numbered_loop lines (i + 1) [snd verse_match] = ([snd verse_match] @ ?more, i + 1 + 5)"
    using len g by (intro numbered_loop_collects) (simp_all add: MAX_VERSE_LINES_def)
  have ne: "strip (lines ! i) \<noteq> []"
    using m match_number_text_Nil by auto
  have first: "snd verse_match \<noteq> []" "\<not> is_space (hd (snd verse_match))"
    using match_number_text_trimmed [OF strip_trimmed [OF ne], of "fst verse_match" "snd verse_match"] m
    by simp_all
  have "trimmed (strip (lines ! k))" if "k \<in> set [i + 1 ..< i + 1 + 5]" for k
  proof -
    from that have "k - (i + 1) < 5" and k: "i + 1 + (k - (i + 1)) = k" by auto
    from g [rule_format, OF this(1)] have "strip (lines ! k) \<noteq> []"
      unfolding k by simp
    then show ?thesis by (rule strip_trimmed)
  qed
  then have tm: "list_all trimmed ?more"
    unfolding list_all_iff by auto
  have nonempty: "list_all (\<lambda>l. l \<noteq> []) ?vl"
    using first(1) tm by (auto simp: list_all_iff trimmed_def)
  have more5: "length ?more = 5" by simp
  then have mne: "?more \<noteq> []" by auto
  have "last ?more \<in> set ?more" using mne by (rule last_in_set)
  with tm have "trimmed (last ?more)" unfolding list_all_iff by blast
  then have lst: "last ?vl \<noteq> []" "\<not> is_space (last (last ?vl))"
    using mne by (simp_all add: trimmed_def)
  have jt: "trimmed (join '' '' ?vl)"
    unfolding trimmed_def
  proof (intro conjI)
    show "join '' '' ?vl \<noteq> []"
      using lst last_join [of ?vl "'' ''"] by simp
    show "\<not> is_space (hd (join '' '' ?vl))"
      using first by (simp add: hd_join)
    show "\<not> is_space (last (join '' '' ?vl))"
      using lst last_join [of ?vl "'' ''"] by simp
  qed
  have "2 * length ?vl \<le> length (join '' '' ?vl) + 1"
    using nonempty by (rule length_join)
  then have "length (strip (join '' '' ?vl)) > 10"
    using more5 strip_id [OF jt] by simp
  then have "extract_numbered_verse lines i verse_match =
      (Some \<lparr>v_number = fst verse_match, v_lines = ?vl\<rparr>, i + 6)"
    using w loop by (simp add: extract_numbered_verse_def Let_def)
  then show ?thesis by (simp add: add.commute)
qed

theorem numbered_verse_capped_witness:
  "\<exists>v. extract_numbered_verse (''7 Verse seed'' # replicate 50 ''la la'') 0 (''7'', ''Verse seed'')
        = (Some v, 6) \<and>
       v_lines v = ''Verse seed'' # replicate 5 ''la la'' \<and> length (v_lines v) = 6"
proof -
  let ?lines = "''7 Verse seed'' # replicate 50 ''la la''"
  have m: "match_number_text (strip (?lines ! 0)) = Some (''7'', ''Verse seed'')"
    by code_simp
  have w: "length (split_ws (snd (''7'', ''Verse seed''))) \<le> 15"
    by code_simp
  have len: "0 + 50 < length ?lines"
    by simp
  have la: "strip ''la la'' \<noteq> [] \<and> \<not> match_leading_number (strip ''la la'') \<and>
      \<not> is_chorus_line (strip ''la la'')"
    by code_simp
  have good: "\<forall>k\<in>{1..50}. strip (?lines ! (0 + k)) \<noteq> [] \<and>
      \<not> match_leading_number (strip (?lines ! (0 + k))) \<and>
      \<not> is_chorus_line (strip (?lines ! (0 + k)))"
  proof
    fix k :: nat assume "k \<in> {1..50}"
    then have "0 < k" "k - 1 < 50" by auto
    then have "?lines ! (0 + k) = ''la la''"
      by (simp add: nth_Cons')
    with la show "strip (?lines ! (0 + k)) \<noteq> [] \<and>
      \<not> match_leading_number (strip (?lines ! (0 + k))) \<and>
      \<not> is_chorus_line (strip (?lines ! (0 + k)))"
      by simp
  qed
  have s: "map (\<lambda>k. strip (?lines ! k)) [0 + 1 ..< 0 + 6] = replicate 5 ''la la''"
    by code_simp
  from numbered_verse_capped [OF m w len good] s
  have "\<exists>v. extract_numbered_verse ?lines 0 (''7'', ''Verse seed'') = (Some v, 6) \<and>
       v_number v = ''7'' \<and>
       v_lines v = ''Verse seed'' # replicate 5 ''la la'' \<and> length (v_lines v) = 6"
    by simp
  then show ?thesis by blast
qed

section \<open>The chorus loop\<close>

text \<open>
  C2: the chorus collection stops at any line with a leading number, whatever its word
  count. In \<open>_extract_chorus\<close> the word count guards the only break: the line
  \<open>2 Rude Cruz\<close> has a leading number and three words, and it is collected with the line
  after it, up to the end of the input. The verse loop of the same class stops at the same
  line. Through the detector the header of the second song becomes a chorus line of the first
  and the second song is lost.
\<close>

theorem bare_number_line_collected_in_chorus:
  "match_leading_number ''2 Rude Cruz'' \<and>
   extract_chorus
     [''1 Amazing Grace'', ''CHORUS'', ''la la'', ''2 Rude Cruz'', ''Second song line here''] 1 =
     ([''la la'', ''2 Rude Cruz'', ''Second song line here''], 5) \<and>
   numbered_loop
     [''1 Amazing Grace'', ''CHORUS'', ''la la'', ''2 Rude Cruz'', ''Second song line here''] 2 [''v''] =
     ([''v'', ''la la''], 3) \<and>
   detect_structure
     ''1 Amazing Grace\<newline>CHORUS\<newline>la la\<newline>2 Rude Cruz\<newline>Second song line here'' =
     Some \<lparr>title = [],
       songs = [\<lparr>s_number = ''1'', s_title = ''Amazing Grace'', verses = [],
         chorus = [''la la'', ''2 Rude Cruz'', ''Second song line here'']\<rparr>],
       total_lines = 5\<rparr>"
  by code_simp

section \<open>Properties of the cleaner\<close>

lemma split_ws_words:
  "w \<in> set (split_ws s) \<Longrightarrow> w \<noteq> [] \<and> \<not> is_space (hd w) \<and> \<not> is_space (last w) \<and> (\<forall>c\<in>set w. \<not> is_space c)"
proof (induction s arbitrary: w rule: split_ws.induct)
  case (1 s)
  show ?case
  proof (cases "dropWhile is_space s")
    case Nil
    with "1.prems" show ?thesis by (subst (asm) split_ws.simps) simp
  next
    case (Cons c cs)
    then have c: "\<not> is_space c"
      using hd_dropWhile [of is_space s] by auto
    let ?w = "c # takeWhile (\<lambda>x. \<not> is_space x) cs"
    from "1.prems" Cons have "w = ?w \<or> w \<in> set (split_ws (dropWhile (\<lambda>x. \<not> is_space x) cs))"
      by (subst (asm) split_ws.simps) simp
    then show ?thesis
    proof
      assume w: "w = ?w"
      have a: "\<forall>x\<in>set ?w. \<not> is_space x"
        using c by (auto dest: set_takeWhileD)
      have "last ?w \<in> set ?w" by (rule last_in_set) simp
      with a have "\<not> is_space (last ?w)" by blast
      with a c w show ?thesis by simp
    next
      assume "w \<in> set (split_ws (dropWhile (\<lambda>x. \<not> is_space x) cs))"
      with "1.IH" [OF Cons] show ?thesis by blast
    qed
  qed
qed

lemma set_join: "c \<in> set (join sep xs) \<Longrightarrow> c \<in> set sep \<or> (\<exists>x\<in>set xs. c \<in> set x)"
  by (induction sep xs rule: join.induct) auto

lemma normalised_no_newline: "CHR 0x0A \<notin> set (join '' '' (split_ws y))"
proof
  assume "CHR 0x0A \<in> set (join '' '' (split_ws y))"
  then have "\<exists>w\<in>set (split_ws y). CHR 0x0A \<in> set w"
    by (auto dest: set_join)
  then show False
    using split_ws_words is_space_newline by blast
qed

lemma normalised_trimmed:
  assumes "join '' '' (split_ws y) \<noteq> []"
  shows "trimmed (join '' '' (split_ws y))"
proof -
  let ?ws = "split_ws y"
  from assms obtain w ws where ws: "?ws = w # ws" by (cases ?ws) auto
  have w: "w \<noteq> []" "\<not> is_space (hd w)"
    using split_ws_words [of w y] ws by simp_all
  have "last ?ws \<in> set ?ws" using ws by (intro last_in_set) simp
  then have l: "last ?ws \<noteq> []" "\<not> is_space (last (last ?ws))"
    using split_ws_words [of "last ?ws" y] by simp_all
  have "?ws \<noteq> []" using ws by simp
  from last_join [OF this l(1), of "'' ''"] l(2)
  have "\<not> is_space (last (join '' '' ?ws))" by simp
  moreover have "\<not> is_space (hd (join '' '' ?ws))"
    using w unfolding ws by (simp add: hd_join)
  ultimately show ?thesis using assms by (simp add: trimmed_def)
qed

lemma split_on_append:
  "sep \<notin> set x \<Longrightarrow> split_on sep (x @ sep # rest) = x # split_on sep rest"
  by (induction x) auto

lemma split_on_id: "sep \<notin> set x \<Longrightarrow> split_on sep x = [x]"
  by (induction x) auto

lemma split_on_join:
  "xs \<noteq> [] \<Longrightarrow> \<forall>x\<in>set xs. sep \<notin> set x \<Longrightarrow> split_on sep (join [sep] xs) = xs"
proof (induction "[sep]" xs rule: join.induct)
  case 1
  then show ?case by simp
next
  case (2 x)
  then show ?case by (simp add: split_on_id)
next
  case (3 x y ys)
  then show ?case by (simp add: split_on_append)
qed

lemma has_valid_content_nonempty: "has_valid_content l \<Longrightarrow> l \<noteq> []"
  by (auto simp: has_valid_content_def)

lemma clean_lines_output:
  "l \<in> set (clean_lines ls) \<Longrightarrow> has_valid_content l \<and> (\<exists>x. l = apply_pattern_cleaning x)"
  by (induction ls) (auto simp: Let_def split: if_splits)

lemma clean_lines_fixed:
  "\<forall>l\<in>set cl. strip l = l \<and> l \<noteq> [] \<and> \<not> is_musical_notation l \<and>
      apply_pattern_cleaning l = l \<and> has_valid_content l \<Longrightarrow>
   clean_lines cl = cl"
  by (induction cl) (simp_all add: Let_def)

text \<open>
  C4, amended: when no line of the cleaned text is a notation line and pattern cleaning
  leaves each of its lines as it is, cleaning the cleaned text gives the same text.
\<close>

theorem clean_fixed_when_output_clean:
  assumes "\<forall>l\<in>set (split_on (CHR 0x0A) (clean_musical_notation text)).
             \<not> is_musical_notation l \<and> apply_pattern_cleaning l = l"
  shows "clean_musical_notation (clean_musical_notation text) = clean_musical_notation text"
proof -
  let ?cl = "clean_lines (split_on (CHR 0x0A) text)"
  have out: "clean_musical_notation text = join [CHR 0x0A] ?cl"
    by (simp add: clean_musical_notation_def)
  show ?thesis
  proof (cases "?cl = []")
    case True
    then have "clean_musical_notation text = []" using out by simp
    then show ?thesis
      by (simp add: clean_musical_notation_def strip_def)
  next
    case False
    have nn: "CHR 0x0A \<notin> set l" if "l \<in> set ?cl" for l
      using clean_lines_output [OF that] normalised_no_newline
      by (auto simp: apply_pattern_cleaning_def)
    then have sp: "split_on (CHR 0x0A) (join [CHR 0x0A] ?cl) = ?cl"
      using False by (intro split_on_join) auto
    have "strip l = l \<and> l \<noteq> [] \<and> \<not> is_musical_notation l \<and>
        apply_pattern_cleaning l = l \<and> has_valid_content l" if l: "l \<in> set ?cl" for l
    proof -
      from clean_lines_output [OF l] obtain x where
        v: "has_valid_content l" and x: "l = apply_pattern_cleaning x"
        by blast
      from v have ne: "l \<noteq> []" by (rule has_valid_content_nonempty)
      then have "trimmed l"
        unfolding x apply_pattern_cleaning_def by (rule normalised_trimmed)
      then have "strip l = l" by (rule strip_id)
      moreover from assms l have "\<not> is_musical_notation l \<and> apply_pattern_cleaning l = l"
        unfolding out sp by blast
      ultimately show ?thesis using v ne by simp
    qed
    then have "clean_lines ?cl = ?cl"
      by (intro clean_lines_fixed) blast
    then show ?thesis
      unfolding out by (simp add: clean_musical_notation_def sp)
  qed
qed

text \<open>
  C3, as the specification states it: an upper case letter counts like its lower case form.
  The class is matched with no flag: the line \<open>S\<close> counts 0 and the line \<open>s\<close> counts 1,
  and of \<open>smdf\<close> and \<open>SMDF\<close> only the first is a notation line.
\<close>

theorem upper_case_not_counted_counterexample:
  "musical_chars ''S'' \<noteq> musical_chars ''s'' \<and>
   is_musical_notation ''smdf'' \<and> \<not> is_musical_notation ''SMDF''"
  by code_simp

text \<open>
  C3, amended: each character of a line adds 1 to the numerator when it is the colon, the
  hyphen, the dot, the pipe, the comma, the apostrophe or one of the lower case letters
  s, m, d, f, t, l, r, i, and nothing otherwise (an upper case letter adds nothing); each
  character but the space adds 1 to the denominator; a line is a notation line when the
  denominator is positive and the ratio is above 6/10. The character U+00E2, which the class
  has in the place of the em dash, is left aside.
\<close>

theorem musical_density_counts:
  assumes "c \<noteq> CHR 0xE2"
  shows "musical_chars [] = 0 \<and> total_chars [] = 0 \<and>
   musical_chars (xs @ c # ys) = musical_chars (xs @ ys) +
     (if c \<in> set ('':-.|,'' @ [apostrophe] @ ''smdftlri'') then 1 else 0) \<and>
   total_chars (xs @ c # ys) = total_chars (xs @ ys) + (if c = CHR '' '' then 0 else 1) \<and>
   is_musical_notation line =
     (0 < total_chars line \<and> 6 * total_chars line < 10 * musical_chars line)"
  using assms
  by (auto simp: musical_chars_def total_chars_def is_musical_notation_def
      MUSICAL_CHAR_THRESHOLD_def)

theorem musical_density_counts_witness:
  "musical_chars ''Sing it'' = 3 \<and> total_chars ''Sing it'' = 6 \<and>
   musical_chars (''Sing'' @ CHR ''S'' # '' it'') = musical_chars ''Sing it'' \<and>
   musical_chars (''Sing'' @ CHR ''s'' # '' it'') = musical_chars ''Sing it'' + 1 \<and>
   musical_chars (''Sing'' @ CHR ''.'' # '' it'') = musical_chars ''Sing it'' + 1 \<and>
   total_chars (''Sing'' @ CHR ''S'' # '' it'') = total_chars ''Sing it'' + 1"
proof -
  have a: "musical_chars ''Sing it'' = 3" "total_chars ''Sing it'' = 6"
    by code_simp+
  have m: "CHR ''S'' \<notin> set ('':-.|,'' @ [apostrophe] @ ''smdftlri'')"
    "CHR ''s'' \<in> set ('':-.|,'' @ [apostrophe] @ ''smdftlri'')"
    "CHR ''.'' \<in> set ('':-.|,'' @ [apostrophe] @ ''smdftlri'')"
    by (simp_all add: apostrophe_def)
  have n: "CHR ''S'' \<noteq> CHR 0xE2" "CHR ''s'' \<noteq> CHR 0xE2" "CHR ''.'' \<noteq> CHR 0xE2"
    by simp_all
  from musical_density_counts [OF n(1), of "''Sing''" "'' it''"]
    musical_density_counts [OF n(2), of "''Sing''" "'' it''"]
    musical_density_counts [OF n(3), of "''Sing''" "'' it''"]
  show ?thesis using a m by simp
qed

text \<open>
  C4, as the specification states it: cleaning the result of a cleaning changes nothing. Two
  lines whose cleaned form is a notation line: the tabs of the first count as characters of
  the line until they become one space, and the upper case letters of the second are cut out
  by a pattern; the second cleaning drops both results.
\<close>

theorem clean_not_idempotent_counterexample:
  "clean_musical_notation (clean_musical_notation (''still'' @ [CHR 0x09, CHR 0x09, CHR 0x09] @ ''AB''))
     \<noteq> clean_musical_notation (''still'' @ [CHR 0x09, CHR 0x09, CHR 0x09] @ ''AB'') \<and>
   clean_musical_notation (clean_musical_notation ''STDF-MRL still'')
     \<noteq> clean_musical_notation ''STDF-MRL still''"
  by code_simp

theorem clean_fixed_when_output_clean_witness:
  "clean_musical_notation ''Amazing grace how sweet\<newline>:-:-|\<newline>  the   sound \<newline>'' =
     ''Amazing grace how sweet\<newline>the sound'' \<and>
   clean_musical_notation ''Amazing grace how sweet\<newline>the sound'' =
     ''Amazing grace how sweet\<newline>the sound''"
proof -
  let ?t = "''Amazing grace how sweet\<newline>:-:-|\<newline>  the   sound \<newline>''"
  have c: "clean_musical_notation ?t = ''Amazing grace how sweet\<newline>the sound''"
    by code_simp
  have s: "split_on (CHR 0x0A) ''Amazing grace how sweet\<newline>the sound'' =
      [''Amazing grace how sweet'', ''the sound'']"
    by code_simp
  have l: "\<not> is_musical_notation ''Amazing grace how sweet''"
    "apply_pattern_cleaning ''Amazing grace how sweet'' = ''Amazing grace how sweet''"
    "\<not> is_musical_notation ''the sound''"
    "apply_pattern_cleaning ''the sound'' = ''the sound''"
    by code_simp+
  have h: "\<forall>l\<in>set (split_on (CHR 0x0A) (clean_musical_notation ?t)).
      \<not> is_musical_notation l \<and> apply_pattern_cleaning l = l"
    unfolding c s using l by simp
  from clean_fixed_when_output_clean [OF h] show ?thesis
    unfolding c by simp
qed

end
